theory Spec2Isabelle
  imports Main "HOL-Library.Char_ord" "HOL-Library.List_Lexorder" "HOL-Library.Sublist"
begin

section \<open>Strings and the built-ins the generator relies on\<close>

text \<open>
  A Python \<open>str\<close> is modelled as a \<open>string\<close> (a list of characters), and the model covers
  ASCII text: the case mappings below change the letters \<open>A\<close>--\<open>Z\<close> and \<open>a\<close>--\<open>z\<close> and
  leave every other character alone. The order on strings is the lexicographic order on
  character codes, which is how Python compares two \<open>str\<close> values.
\<close>

definition is_upper :: "char \<Rightarrow> bool" where
  "is_upper c \<longleftrightarrow> CHR ''A'' \<le> c \<and> c \<le> CHR ''Z''"

definition is_lower :: "char \<Rightarrow> bool" where
  "is_lower c \<longleftrightarrow> CHR ''a'' \<le> c \<and> c \<le> CHR ''z''"

definition is_cased :: "char \<Rightarrow> bool" where
  "is_cased c \<longleftrightarrow> is_upper c \<or> is_lower c"

definition char_lower :: "char \<Rightarrow> char" where
  "char_lower c = (if is_upper c then char_of (of_char c + (32::nat)) else c)"

definition char_upper :: "char \<Rightarrow> char" where
  "char_upper c = (if is_lower c then char_of (of_char c - (32::nat)) else c)"

text \<open>\<open>s.lower()\<close> and \<open>s.upper()\<close>.\<close>

definition str_lower :: "string \<Rightarrow> string" where
  "str_lower s = map char_lower s"

definition str_upper :: "string \<Rightarrow> string" where
  "str_upper s = map char_upper s"

text \<open>
  \<open>s.title()\<close>: a character that follows a cased character is lowered, any other one is
  put in title case; the flag is whether the previous character was cased.
\<close>

fun title_from :: "bool \<Rightarrow> string \<Rightarrow> string" where
  "title_from previous_is_cased [] = []"
| "title_from previous_is_cased (c # s) =
     (if previous_is_cased then char_lower c else char_upper c) # title_from (is_cased c) s"

definition str_title :: "string \<Rightarrow> string" where
  "str_title s = title_from False s"

text \<open>\<open>sep.join(combo)\<close> for a tuple of strings.\<close>

fun join :: "string \<Rightarrow> string list \<Rightarrow> string" where
  "join sep [] = []"
| "join sep [x] = x"
| "join sep (x # y # ys) = x @ sep @ join sep (y # ys)"

text \<open>\<open>str(y)\<close> for an integer: the decimal digits, with a minus sign when negative.\<close>

definition digit_char :: "nat \<Rightarrow> char" where
  "digit_char d = char_of (48 + d)"

fun str_nat :: "nat \<Rightarrow> string" where
  "str_nat n = (if n < 10 then [digit_char n] else str_nat (n div 10) @ [digit_char (n mod 10)])"

declare str_nat.simps [simp del]

definition str_int :: "int \<Rightarrow> string" where
  "str_int i = (if i < 0 then CHR ''-'' # str_nat (nat (- i)) else str_nat (nat i))"

text \<open>\<open>list(range(a, b))\<close>.\<close>

definition py_range :: "int \<Rightarrow> int \<Rightarrow> int list" where
  "py_range a b = [a..b - 1]"

text \<open>
  \<open>s.split(sep)\<close> for a one-character separator: the pieces between the occurrences of
  the separator, empty pieces included, so the result is never empty.
\<close>

fun split_on :: "char \<Rightarrow> string \<Rightarrow> string list" where
  "split_on sep [] = [[]]"
| "split_on sep (c # s) =
     (if c = sep then [] # split_on sep s
      else (case split_on sep s of p # ps \<Rightarrow> (c # p) # ps | [] \<Rightarrow> [[c]]))"

text \<open>
  \<open>int(s)\<close> on an ASCII string: the white space around the number is dropped (space,
  tab, newline, vertical tab, form feed and carriage return, and no other character), one
  sign is allowed, then decimal digits, where a single underscore may stand between two
  digits. An interpreter with a limit on the length of such conversions
  (\<open>sys.get_int_max_str_digits()\<close>, 0 when there is none) refuses a number with more
  digits than the limit. Every refusal raises \<open>ValueError\<close>, which is \<open>None\<close> here.
\<close>

definition is_ascii :: "string \<Rightarrow> bool" where
  "is_ascii s \<longleftrightarrow> (\<forall>c\<in>set s. (of_char c :: nat) < 128)"

definition is_space :: "char \<Rightarrow> bool" where
  "is_space c \<longleftrightarrow> (let n = (of_char c :: nat) in (9 \<le> n \<and> n \<le> 13) \<or> n = 32)"

definition is_digit :: "char \<Rightarrow> bool" where
  "is_digit c \<longleftrightarrow> CHR ''0'' \<le> c \<and> c \<le> CHR ''9''"

definition strip :: "string \<Rightarrow> string" where
  "strip s = rev (dropWhile is_space (rev (dropWhile is_space s)))"

text \<open>The digits of a number, most significant first; the flag says a digit came just before.\<close>

fun digits_value :: "bool \<Rightarrow> int \<Rightarrow> string \<Rightarrow> int option" where
  "digits_value after_digit acc [] = (if after_digit then Some acc else None)"
| "digits_value after_digit acc (c # s) =
     (if is_digit c then digits_value True (10 * acc + (of_char c - 48)) s
      else if c = CHR ''_'' \<and> after_digit then digits_value False acc s
      else None)"

definition py_int :: "nat \<Rightarrow> string \<Rightarrow> int option" where
  "py_int digit_limit s =
     (case strip s of
        [] \<Rightarrow> None
      | c # t \<Rightarrow>
          (let negative = (c = CHR ''-'');
               body = (if c = CHR ''-'' \<or> c = CHR ''+'' then t else c # t)
           in case digits_value False 0 body of
                None \<Rightarrow> None
              | Some n \<Rightarrow>
                  if 0 < digit_limit \<and> digit_limit < length (filter is_digit body) then None
                  else Some (if negative then - n else n)))"

section \<open>Python sets\<close>

text \<open>
  A Python \<open>set\<close> is modelled as a HOL set. The order in which Python iterates over a set
  is not fixed by its elements (it depends on the hashes, which change from one process to
  the next, and on the history of the set), so \<open>list(s)\<close> is a parameter \<open>list_of\<close> of
  every function that iterates over a set. All that is known of it is that it lists
  every element of a finite set once.
\<close>

definition enumerates :: "('a set \<Rightarrow> 'a list) \<Rightarrow> bool" where
  "enumerates list_of \<longleftrightarrow> (\<forall>S. finite S \<longrightarrow> set (list_of S) = S \<and> distinct (list_of S))"

text \<open>
  Two iteration orders, to run the functions with: the elements in ascending order, which
  is \<open>sorted_list_of_set\<close>, and in descending order.
\<close>

definition reversed_order :: "string set \<Rightarrow> string list" where
  "reversed_order S = rev (sorted_list_of_set S)"

text \<open>\<open>xs[:n]\<close>: a negative bound counts from the end of the list.\<close>

definition slice_to :: "'a list \<Rightarrow> int \<Rightarrow> 'a list" where
  "slice_to xs n = (if n < 0 then take (nat (int (length xs) + n)) xs else take (nat n) xs)"

section \<open>The leetspeak expander\<close>

definition LEET_MAP :: "char \<Rightarrow> string list option" where
  "LEET_MAP = map_of
     [(CHR ''a'', [''a'', ''@'', ''4'']),
      (CHR ''e'', [''e'', ''3'']),
      (CHR ''i'', [''i'', ''1'', ''!'']),
      (CHR ''o'', [''o'', ''0'']),
      (CHR ''s'', [''s'', ''$'', ''5'']),
      (CHR ''t'', [''t'', ''7''])]"

text \<open>\<open>LEET_MAP.get(c.lower(), [c])\<close>\<close>

definition leet_choices :: "char \<Rightarrow> string list" where
  "leet_choices c = (case LEET_MAP (char_lower c) of Some alts \<Rightarrow> alts | None \<Rightarrow> [[c]])"

text \<open>The loop over the characters of the word; \<open>variants\<close> is the list built so far.\<close>

fun leet_loop :: "string \<Rightarrow> string list \<Rightarrow> string list" where
  "leet_loop [] variants = variants"
| "leet_loop (c # word) variants =
     leet_loop word (concat (map (\<lambda>p. map (\<lambda>ch. p @ ch) (leet_choices c)) variants))"

definition leetspeak_variants :: "string \<Rightarrow> string set" where
  "leetspeak_variants word = set (leet_loop word [[]])"

section \<open>The pool of variants and the combiner\<close>

text \<open>
  \<open>itertools.permutations(xs, r)\<close>: the tuples of \<open>r\<close> elements of \<open>xs\<close> at pairwise
  different positions, in the lexicographic order of the positions.
\<close>

definition remove_nth :: "nat \<Rightarrow> 'a list \<Rightarrow> 'a list" where
  "remove_nth i xs = take i xs @ drop (Suc i) xs"

fun permutations :: "'a list \<Rightarrow> nat \<Rightarrow> 'a list list" where
  "permutations xs 0 = [[]]"
| "permutations xs (Suc r) =
     concat (map (\<lambda>i. map (\<lambda>p. xs ! i # p) (permutations (remove_nth i xs) r)) [0..<length xs])"

text \<open>The set \<open>local\<close> of one base word.\<close>

definition local_variants :: "bool \<Rightarrow> string \<Rightarrow> string set" where
  "local_variants leet w =
     (let local = {w, str_lower w, str_title w, str_upper w}
      in if leet then local \<union> (\<Union>v\<in>local. leetspeak_variants v) else local)"

text \<open>The first loop of \<open>word_variants\<close>: the union of the local sets of all base words.\<close>

definition variant_pool :: "string list \<Rightarrow> bool \<Rightarrow> string set" where
  "variant_pool base_words leet =
     fold (\<lambda>w variants. variants \<union> local_variants leet w) base_words {}"

definition default_separators :: "string list" where
  "default_separators = [[], ''_'', ''-'', ''.'', ''@'']"

text \<open>
  The second loop of \<open>word_variants\<close>. \<open>joined\<close> is the sequence of the strings that
  the two inner loops give to \<open>results.add\<close> for one length, one for each permutation
  and separator; \<open>combiner_adds\<close> is the sequence for all lengths, and \<open>combiner\<close> is
  the set \<open>results\<close> after the loop.
\<close>

definition joined :: "string list \<Rightarrow> string list \<Rightarrow> nat \<Rightarrow> string list" where
  "joined pool separators combo_len =
     concat (map (\<lambda>combo. map (\<lambda>sep. join sep combo) separators)
                 (permutations pool combo_len))"

definition combiner_adds :: "(string set \<Rightarrow> string list) \<Rightarrow> string set \<Rightarrow> string list \<Rightarrow> string list" where
  "combiner_adds list_of variants separators =
     concat (map (joined (list_of variants) separators) [1..<min 3 (card variants) + 1])"

definition combiner :: "(string set \<Rightarrow> string list) \<Rightarrow> string set \<Rightarrow> string list \<Rightarrow> string set" where
  "combiner list_of variants separators = set (combiner_adds list_of variants separators)"

section \<open>Year augmentation\<close>

text \<open>
  The third loop of \<open>word_variants\<close>: for every string of a snapshot of \<open>results\<close> and
  every year, the string followed by the year and the year followed by the string are
  added to \<open>results\<close>.
\<close>

definition add_years :: "int list \<Rightarrow> string \<Rightarrow> string set \<Rightarrow> string set" where
  "add_years ys r results =
     fold (\<lambda>y results. insert (str_int y @ r) (insert (r @ str_int y) results)) ys results"

definition year_augment :: "(string set \<Rightarrow> string list) \<Rightarrow> string set \<Rightarrow> int list \<Rightarrow> string set" where
  "year_augment list_of results ys = fold (add_years ys) (list_of results) results"

definition word_variants ::
  "(string set \<Rightarrow> string list) \<Rightarrow> string list \<Rightarrow> int list option \<Rightarrow> bool \<Rightarrow> bool
     \<Rightarrow> string list option \<Rightarrow> string set" where
  "word_variants list_of base_words years leet append_years separators =
     (let separators = (case separators of None \<Rightarrow> default_separators | Some seps \<Rightarrow> seps);
          variants = variant_pool base_words leet;
          results = combiner list_of variants separators
      in case years of
           None \<Rightarrow> results
         | Some ys \<Rightarrow>
             if append_years \<and> ys \<noteq> [] then year_augment list_of results ys else results)"

section \<open>The generate command\<close>

text \<open>The cap on the size of the word list: \<open>set(list(wl)[:max_size])\<close> under its guard.\<close>

definition capper :: "(string set \<Rightarrow> string list) \<Rightarrow> string set \<Rightarrow> int \<Rightarrow> string set" where
  "capper list_of wl max_size =
     (if max_size \<noteq> 0 \<and> int (card wl) > max_size then set (slice_to (list_of wl) max_size)
      else wl)"

text \<open>The file: every word of \<open>sorted(wl)\<close> is written, followed by a newline.\<close>

definition newline :: char where
  "newline = CHR 0x0A"

fun write_words :: "string list \<Rightarrow> string \<Rightarrow> string" where
  "write_words [] f = f"
| "write_words (w # ws) f = write_words ws (f @ (w @ [newline]))"

definition emit :: "(string set \<Rightarrow> string list) \<Rightarrow> string set \<Rightarrow> string" where
  "emit list_of wl = write_words (sort (list_of wl)) []"

text \<open>
  Two limits of the interpreter that runs the command: the limit of \<open>int\<close> on the number
  of digits (0 when there is none), and the length of the longest list that it can build.
  \<open>example_platform\<close> is one such interpreter, to run the command with.
\<close>

record platform =
  max_str_digits :: nat
  max_list :: nat

definition example_platform :: platform where
  "example_platform = \<lparr>max_str_digits = 4300, max_list = 9223372036854775807\<rparr>"

text \<open>
  The year range: \<open>start, end = map(int, s.split('-'))\<close> and
  \<open>list(range(start, end+1))\<close>. The exceptions of the \<open>try\<close> block are the
  \<open>ValueError\<close> of \<open>int\<close>, or of the unpacking when there are not exactly two pieces,
  and the \<open>OverflowError\<close> or \<open>MemoryError\<close> of \<open>list\<close> when the range is too long
  for a list, which is \<open>ListTooLong\<close> here. \<open>except Exception\<close> catches them all.
\<close>

datatype exn = ValueError | ListTooLong

definition parse_years :: "platform \<Rightarrow> string \<Rightarrow> exn + int list" where
  "parse_years lim s =
     (case map (py_int (max_str_digits lim)) (split_on CHR ''-'' s) of
        [Some start, Some stop] \<Rightarrow>
          if int (max_list lim) < stop + 1 - start then Inl ListTooLong
          else Inr (py_range start (stop + 1))
      | _ \<Rightarrow> Inl ValueError)"

text \<open>
  What the command prints, and what it has done when it returns: \<open>written\<close> is the
  path and the content of the file it wrote, \<open>None\<close> when it wrote none.
\<close>

datatype message =
    NoInputs
  | InvalidYearRange
  | GeneratingVariants "string list"
  | Generated nat string

record outcome =
  stdout :: "message list"
  written :: "(string \<times> string) option"

record args =
  name :: "string option"
  pet :: "string option"
  birth :: "string option"
  keyword :: "string option"
  years :: "string option"
  leet :: bool
  append_years :: bool
  max_size :: int
  out :: "string option"

text \<open>The list \<open>base\<close>: the seeds that are given and not empty, in the order of the code.\<close>

definition seeds :: "args \<Rightarrow> string list" where
  "seeds a =
     concat (map (\<lambda>val. case val of None \<Rightarrow> [] | Some v \<Rightarrow> if v = [] then [] else [v])
                 [name a, pet a, birth a, keyword a])"

text \<open>The list \<open>years\<close> after the \<open>try\<close> block, and the warning when there is one.\<close>

definition year_list :: "platform \<Rightarrow> args \<Rightarrow> int list \<times> message list" where
  "year_list lim a =
     (case years a of
        None \<Rightarrow> ([], [])
      | Some s \<Rightarrow>
          if s = [] then ([], [])
          else (case parse_years lim s of
                  Inr ys \<Rightarrow> (ys, [])
                | Inl _ \<Rightarrow> ([], [InvalidYearRange])))"

definition out_path :: "args \<Rightarrow> string" where
  "out_path a = (case out a of None \<Rightarrow> ''wordlist.txt''
                 | Some p \<Rightarrow> if p = [] then ''wordlist.txt'' else p)"

definition generate_wordlist ::
  "(string set \<Rightarrow> string list) \<Rightarrow> platform \<Rightarrow> args \<Rightarrow> outcome" where
  "generate_wordlist list_of lim a =
     (let base = seeds a in
      if base = [] then \<lparr>stdout = [NoInputs], written = None\<rparr>
      else
        let (ys, warning) = year_list lim a;
            wl = word_variants list_of base (if append_years a then Some ys else None)
                   (leet a) (append_years a) None;
            wl = capper list_of wl (max_size a);
            path = out_path a
        in \<lparr>stdout = warning @ [GeneratingVariants base, Generated (card wl) path],
            written = Some (path, emit list_of wl)\<rparr>)"

text \<open>The set \<open>wl\<close> of the command at the moment it opens the file.\<close>

definition wordlist :: "(string set \<Rightarrow> string list) \<Rightarrow> platform \<Rightarrow> args \<Rightarrow> string set" where
  "wordlist list_of lim a =
     capper list_of
       (word_variants list_of (seeds a)
          (if append_years a then Some (fst (year_list lim a)) else None)
          (leet a) (append_years a) None)
       (max_size a)"

text \<open>The arguments of the command when no option is given: the defaults of the parser.\<close>

definition default_args :: args where
  "default_args =
     \<lparr>name = None, pet = None, birth = None, keyword = None, years = None,
      leet = False, append_years = False, max_size = 5000, out = None\<rparr>"

section \<open>Iteration orders\<close>

lemma enumerates_sorted: "enumerates (sorted_list_of_set :: 'a::linorder set \<Rightarrow> 'a list)"
  by (simp add: enumerates_def)

lemma enumerates_reversed: "enumerates reversed_order"
  by (simp add: enumerates_def reversed_order_def)

lemma enumerates_set: "enumerates list_of \<Longrightarrow> finite S \<Longrightarrow> set (list_of S) = S"
  by (simp add: enumerates_def)

lemma enumerates_distinct: "enumerates list_of \<Longrightarrow> finite S \<Longrightarrow> distinct (list_of S)"
  by (simp add: enumerates_def)

lemma enumerates_length: "enumerates list_of \<Longrightarrow> finite S \<Longrightarrow> length (list_of S) = card S"
  using distinct_card[of "list_of S"] by (simp add: enumerates_def)

section \<open>The leetspeak expander: size of the result\<close>

text \<open>
  The list comprehension of the loop body is the image of the pairs of a prefix and a
  choice.
\<close>

lemma comprehension_product:
  "concat (map (\<lambda>p. map (\<lambda>ch. f p ch) cs) vs) = map (\<lambda>(p, ch). f p ch) (List.product vs cs)"
  by (induction vs) (simp_all add: o_def)

lemma extend_distinct:
  assumes "distinct vs" and "distinct cs" and "\<forall>v\<in>set vs. length v = n"
  shows "distinct (concat (map (\<lambda>p. map (\<lambda>ch. p @ ch) cs) vs))"
proof -
  have "inj_on (\<lambda>(p, ch). p @ ch) (set vs \<times> set cs)"
    using assms(3) by (auto simp add: inj_on_def)
  then show ?thesis
    using assms(1,2) by (simp add: comprehension_product distinct_map distinct_product)
qed

lemma extend_length:
  "length (concat (map (\<lambda>p. map (\<lambda>ch. p @ ch) cs) vs)) = length vs * length cs"
  by (simp add: comprehension_product)

lemma leet_choices_cases:
  "leet_choices c =
     (if char_lower c = CHR ''a'' then [''a'', ''@'', ''4'']
      else if char_lower c = CHR ''e'' then [''e'', ''3'']
      else if char_lower c = CHR ''i'' then [''i'', ''1'', ''!'']
      else if char_lower c = CHR ''o'' then [''o'', ''0'']
      else if char_lower c = CHR ''s'' then [''s'', ''$'', ''5'']
      else if char_lower c = CHR ''t'' then [''t'', ''7'']
      else [[c]])"
  by (simp add: leet_choices_def LEET_MAP_def)

lemma leet_choices_distinct: "distinct (leet_choices c)"
  by (simp add: leet_choices_cases)

lemma leet_choices_single: "ch \<in> set (leet_choices c) \<Longrightarrow> length ch = 1"
  by (auto simp add: leet_choices_cases split: if_splits)

lemma extend_lengths:
  assumes "\<forall>v\<in>set vs. length v = n"
  shows "\<forall>v\<in>set (concat (map (\<lambda>p. map (\<lambda>ch. p @ ch) (leet_choices c)) vs)). length v = Suc n"
  using assms by (auto simp add: leet_choices_single)

text \<open>
  The invariant of the loop: the variants built so far are pairwise different and all of
  the length of the part of the word already read, so no two of their extensions meet.
\<close>

lemma leet_loop_invariant:
  "distinct vs \<Longrightarrow> \<forall>v\<in>set vs. length v = n \<Longrightarrow>
   distinct (leet_loop word vs) \<and>
   length (leet_loop word vs) = length vs * prod_list (map (\<lambda>c. length (leet_choices c)) word)"
proof (induction word arbitrary: vs n)
  case Nil
  then show ?case by simp
next
  case (Cons c word)
  let ?vs = "concat (map (\<lambda>p. map (\<lambda>ch. p @ ch) (leet_choices c)) vs)"
  have d: "distinct ?vs"
    using Cons.prems by (intro extend_distinct[where n = n]) (simp_all add: leet_choices_distinct)
  have l: "\<forall>v\<in>set ?vs. length v = Suc n"
    using Cons.prems(2) by (rule extend_lengths)
  from Cons.IH[OF d l] show ?case
    by (simp add: extend_length)
qed

lemma leetspeak_card:
  "card (leetspeak_variants word) = prod_list (map (\<lambda>c. length (leet_choices c)) word)"
proof -
  have "distinct (leet_loop word [[]]) \<and>
        length (leet_loop word [[]]) =
          length [[]::string] * prod_list (map (\<lambda>c. length (leet_choices c)) word)"
    by (rule leet_loop_invariant[where n = 0]) simp_all
  then show ?thesis
    by (simp add: leetspeak_variants_def distinct_card)
qed

text \<open>
  Claim C2. The number of leetspeak variants of a word is the product, over the
  characters of the word, of the number of alternatives of the character: 3 for
  \<open>a\<close>, \<open>i\<close>, \<open>s\<close> and 2 for \<open>e\<close>, \<open>o\<close>, \<open>t\<close> in either case, 1 for every
  other character. The variants of the empty word are the empty word alone.
\<close>

theorem leet_expander_size:
  "card (leetspeak_variants word) = prod_list (map (\<lambda>c. card (set (leet_choices c))) word)
   \<and> card (set (leet_choices c)) =
       (if char_lower c \<in> {CHR ''a'', CHR ''i'', CHR ''s''} then 3
        else if char_lower c \<in> {CHR ''e'', CHR ''o'', CHR ''t''} then 2
        else 1)
   \<and> leetspeak_variants [] = {[]}"
proof -
  have a: "card (set (leet_choices c)) = length (leet_choices c)" for c
    by (simp add: distinct_card leet_choices_distinct)
  have b: "length (leet_choices c) =
       (if char_lower c \<in> {CHR ''a'', CHR ''i'', CHR ''s''} then 3
        else if char_lower c \<in> {CHR ''e'', CHR ''o'', CHR ''t''} then 2
        else 1)"
    by (simp add: leet_choices_cases)
  show ?thesis
    by (simp only: a leetspeak_card b) (simp add: leetspeak_variants_def)
qed

section \<open>The generate command: seeds and the year range\<close>

lemma word_variants_empty_years:
  "word_variants list_of base (Some []) lt ap None
     = combiner list_of (variant_pool base lt) default_separators"
  by (simp add: word_variants_def)

lemma word_variants_no_years:
  "ys = [] \<or> \<not> ap \<Longrightarrow>
   word_variants list_of base (if ap then Some ys else None) lt ap None
     = combiner list_of (variant_pool base lt) default_separators"
  by (auto simp add: word_variants_def)

text \<open>
  The conversion and the year range at some values: a separator character that is no
  white space for \<open>int\<close>, a number of more digits than the limit, and a range that is too
  long for a list all end in the \<open>except\<close> branch.
\<close>

lemma py_int_examples:
  "py_int 4300 ''1990'' = Some 1990"
  "py_int 4300 (CHR 0x09 # ''+1_990 '') = Some 1990"
  "py_int 4300 (CHR 0x1F # ''5'') = None"
  "py_int 4300 (CHR 0x1C # ''1990'') = None"
  "py_int 4300 ''1__0'' = None"
  "py_int 3 ''1990'' = None"
  "py_int 0 ''1990'' = Some 1990"
  by code_simp+

lemma parse_years_of_pieces:
  assumes "map (py_int (max_str_digits lim)) (split_on CHR ''-'' s) = pieces"
  shows "parse_years lim s =
     (case pieces of
        [Some start, Some stop] \<Rightarrow>
          if int (max_list lim) < stop + 1 - start then Inl ListTooLong
          else Inr (py_range start (stop + 1))
      | _ \<Rightarrow> Inl ValueError)"
  using assms by (simp add: parse_years_def)

lemma example_limits:
  "max_str_digits example_platform = 4300"
  "max_list example_platform = 9223372036854775807"
  by (simp_all add: example_platform_def)

lemma parse_years_examples:
  "parse_years example_platform ''1990-1992'' = Inr [1990, 1991, 1992]"
  "parse_years example_platform (CHR 0x1C # ''1990-1991'') = Inl ValueError"
  "parse_years example_platform ''1990'' = Inl ValueError"
  "parse_years example_platform ''1-2-3'' = Inl ValueError"
  "parse_years example_platform ''0-9223372036854775807'' = Inl ListTooLong"
proof -
  have a: "map (py_int 4300) (split_on CHR ''-'' ''1990-1992'') = [Some 1990, Some 1992]"
    by code_simp
  have r: "py_range 1990 1993 = [1990, 1991, 1992]"
    by code_simp
  show "parse_years example_platform ''1990-1992'' = Inr [1990, 1991, 1992]"
    using parse_years_of_pieces[of example_platform, unfolded example_limits, OF a]
    by (simp add: r)
  have b: "map (py_int 4300) (split_on CHR ''-'' (CHR 0x1C # ''1990-1991'')) = [None, Some 1991]"
    by code_simp
  show "parse_years example_platform (CHR 0x1C # ''1990-1991'') = Inl ValueError"
    using parse_years_of_pieces[of example_platform, unfolded example_limits, OF b]
    by simp
  have c: "map (py_int 4300) (split_on CHR ''-'' ''1990'') = [Some 1990]"
    by code_simp
  show "parse_years example_platform ''1990'' = Inl ValueError"
    using parse_years_of_pieces[of example_platform, unfolded example_limits, OF c]
    by simp
  have d: "map (py_int 4300) (split_on CHR ''-'' ''1-2-3'') = [Some 1, Some 2, Some 3]"
    by code_simp
  show "parse_years example_platform ''1-2-3'' = Inl ValueError"
    using parse_years_of_pieces[of example_platform, unfolded example_limits, OF d]
    by simp
  have e: "map (py_int 4300) (split_on CHR ''-'' ''0-9223372036854775807'')
      = [Some 0, Some 9223372036854775807]"
    by code_simp
  show "parse_years example_platform ''0-9223372036854775807'' = Inl ListTooLong"
    using parse_years_of_pieces[of example_platform, unfolded example_limits, OF e]
    by simp
qed

text \<open>
  Claim C8. When none of the four seeds is given, the command prints its message,
  writes no file and returns.
\<close>

theorem generate_without_seeds:
  assumes "name a = None" and "pet a = None" and "birth a = None" and "keyword a = None"
  shows "generate_wordlist list_of lim a = \<lparr>stdout = [NoInputs], written = None\<rparr>"
  using assms by (simp add: generate_wordlist_def seeds_def)

theorem generate_without_seeds_witness:
  "generate_wordlist sorted_list_of_set example_platform
     \<lparr>name = None, pet = None, birth = None, keyword = None, years = Some ''1990-2025'',
      leet = True, append_years = True, max_size = 5000, out = Some ''words.txt''\<rparr>
   = \<lparr>stdout = [NoInputs], written = None\<rparr>"
  by (rule generate_without_seeds) simp_all

text \<open>
  Claim C6, as stated: a value of \<open>--years\<close> that is not a range makes the command print
  the warning. The empty value is not a range, and the command prints no warning for it:
  the guard \<open>if args.years\<close> takes it for an argument that was not given.
\<close>

theorem empty_years_no_warning:
  "parse_years example_platform [] = Inl ValueError \<and>
   stdout (generate_wordlist sorted_list_of_set example_platform
     \<lparr>name = Some ''a'', pet = None, birth = None, keyword = None, years = Some [],
      leet = False, append_years = True, max_size = 5000, out = None\<rparr>)
   = [GeneratingVariants [''a''], Generated 12 ''wordlist.txt'']"
proof -
  have "map (py_int 4300) (split_on CHR ''-'' []) = [None]"
    by code_simp
  from parse_years_of_pieces[of example_platform, unfolded example_limits, OF this]
  have "parse_years example_platform [] = Inl ValueError"
    by simp
  moreover have "card (capper sorted_list_of_set
      (combiner sorted_list_of_set (variant_pool [''a''] False) default_separators) 5000) = 12"
    by code_simp
  ultimately show ?thesis
    by (simp add: generate_wordlist_def seeds_def year_list_def word_variants_empty_years
        out_path_def Let_def)
qed

text \<open>
  Claim C6, amended. When at least one seed is given and the value of \<open>--years\<close> is an
  ASCII string for which the \<open>try\<close> block raises (the value does not parse as a range,
  or the range is too long for a list), the command prints the warning unless the value
  is empty, and in both cases it goes on without the years: it writes the file of the
  capped candidates of the combiner, none of them augmented with a year, and reports
  their number.
\<close>

theorem invalid_years_warning:
  assumes "seeds a \<noteq> []" and "years a = Some s" and "is_ascii s"
    and "parse_years lim s = Inl e"
  shows "generate_wordlist list_of lim a =
     (let wl = capper list_of
                 (combiner list_of (variant_pool (seeds a) (leet a)) default_separators)
                 (max_size a)
      in \<lparr>stdout = (if s = [] then [] else [InvalidYearRange])
                     @ [GeneratingVariants (seeds a), Generated (card wl) (out_path a)],
          written = Some (out_path a, emit list_of wl)\<rparr>)"
  using assms(1,2,4)
  by (simp add: generate_wordlist_def year_list_def word_variants_no_years Let_def)

theorem invalid_years_warning_witness:
  "generate_wordlist sorted_list_of_set example_platform
     \<lparr>name = Some ''a'', pet = None, birth = None, keyword = None, years = Some ''2020-x'',
      leet = False, append_years = True, max_size = 5000, out = None\<rparr>
   = \<lparr>stdout = [InvalidYearRange, GeneratingVariants [''a''], Generated 12 ''wordlist.txt''],
      written = Some (''wordlist.txt'',
        ''A\<newline>A-a\<newline>A.a\<newline>A@a\<newline>A_a\<newline>Aa\<newline>a\<newline>a-A\<newline>a.A\<newline>a@A\<newline>aA\<newline>a_A\<newline>'')\<rparr>"
proof -
  let ?a = "\<lparr>name = Some ''a'', pet = None, birth = None, keyword = None,
      years = Some ''2020-x'', leet = False, append_years = True, max_size = 5000,
      out = None\<rparr>"
  have s: "seeds ?a = [''a'']"
    by (simp add: seeds_def)
  have n: "seeds ?a \<noteq> []"
    by (simp add: s)
  have y: "years ?a = Some ''2020-x''"
    by simp
  have i: "is_ascii ''2020-x''"
    by code_simp
  have "map (py_int 4300) (split_on CHR ''-'' ''2020-x'') = [Some 2020, None]"
    by code_simp
  from parse_years_of_pieces[of example_platform, unfolded example_limits, OF this]
  have p: "parse_years example_platform ''2020-x'' = Inl ValueError"
    by simp
  have c: "card (capper sorted_list_of_set
      (combiner sorted_list_of_set (variant_pool [''a''] False) default_separators) 5000) = 12"
    by code_simp
  have e: "emit sorted_list_of_set (capper sorted_list_of_set
      (combiner sorted_list_of_set (variant_pool [''a''] False) default_separators) 5000)
    = ''A\<newline>A-a\<newline>A.a\<newline>A@a\<newline>A_a\<newline>Aa\<newline>a\<newline>a-A\<newline>a.A\<newline>a@A\<newline>aA\<newline>a_A\<newline>''"
    by code_simp
  show ?thesis
    using invalid_years_warning[OF n y i p, of sorted_list_of_set]
    by (simp add: s c e out_path_def)
qed

text \<open>
  Claim C9. When the value of \<open>--years\<close> parses as two integers with the first greater
  than the second, no warning is printed, and the command writes the file of the capped
  candidates of the combiner, none of them augmented with a year.
\<close>

theorem reversed_years_silent:
  assumes "seeds a \<noteq> []" and "years a = Some s"
    and "map (py_int (max_str_digits lim)) (split_on CHR ''-'' s) = [Some start, Some stop]"
    and "stop < start"
  shows "generate_wordlist list_of lim a =
     (let wl = capper list_of
                 (combiner list_of (variant_pool (seeds a) (leet a)) default_separators)
                 (max_size a)
      in \<lparr>stdout = [GeneratingVariants (seeds a), Generated (card wl) (out_path a)],
          written = Some (out_path a, emit list_of wl)\<rparr>)"
proof -
  have "s \<noteq> []"
    using assms(3) by auto
  moreover have "parse_years lim s = Inr []"
    using assms(3,4) by (simp add: parse_years_def py_range_def)
  ultimately show ?thesis
    using assms(1,2)
    by (simp add: generate_wordlist_def year_list_def word_variants_no_years Let_def)
qed

theorem reversed_years_silent_witness:
  "generate_wordlist sorted_list_of_set example_platform
     \<lparr>name = Some ''a'', pet = None, birth = None, keyword = None, years = Some ''2025-1990'',
      leet = False, append_years = True, max_size = 5000, out = None\<rparr>
   = \<lparr>stdout = [GeneratingVariants [''a''], Generated 12 ''wordlist.txt''],
      written = Some (''wordlist.txt'',
        ''A\<newline>A-a\<newline>A.a\<newline>A@a\<newline>A_a\<newline>Aa\<newline>a\<newline>a-A\<newline>a.A\<newline>a@A\<newline>aA\<newline>a_A\<newline>'')\<rparr>"
proof -
  let ?a = "\<lparr>name = Some ''a'', pet = None, birth = None, keyword = None,
      years = Some ''2025-1990'', leet = False, append_years = True, max_size = 5000,
      out = None\<rparr>"
  have s: "seeds ?a = [''a'']"
    by (simp add: seeds_def)
  have n: "seeds ?a \<noteq> []"
    by (simp add: s)
  have y: "years ?a = Some ''2025-1990''"
    by simp
  have "map (py_int 4300) (split_on CHR ''-'' ''2025-1990'') = [Some 2025, Some 1990]"
    by code_simp
  then have p: "map (py_int (max_str_digits example_platform)) (split_on CHR ''-'' ''2025-1990'')
      = [Some 2025, Some 1990]"
    by (simp only: example_limits)
  have c: "card (capper sorted_list_of_set
      (combiner sorted_list_of_set (variant_pool [''a''] False) default_separators) 5000) = 12"
    by code_simp
  have e: "emit sorted_list_of_set (capper sorted_list_of_set
      (combiner sorted_list_of_set (variant_pool [''a''] False) default_separators) 5000)
    = ''A\<newline>A-a\<newline>A.a\<newline>A@a\<newline>A_a\<newline>Aa\<newline>a\<newline>a-A\<newline>a.A\<newline>a@A\<newline>aA\<newline>a_A\<newline>''"
    by code_simp
  show ?thesis
    using reversed_years_silent[OF n y p, of sorted_list_of_set]
    by (simp add: s c e out_path_def)
qed

section \<open>The cap on the size\<close>

lemma capper_cut:
  assumes "0 < m" and "m < int (card S)"
  shows "capper list_of S m = set (take (nat m) (list_of S))"
  using assms by (simp add: capper_def slice_to_def)

lemma capper_pass: "int (card S) \<le> m \<Longrightarrow> capper list_of S m = S"
  by (simp add: capper_def)

lemma capper_zero: "capper list_of S 0 = S"
  by (simp add: capper_def)

lemma card_take:
  assumes "enumerates list_of" and "finite S" and "n \<le> card S"
  shows "card (set (take n (list_of S))) = n"
proof -
  have "distinct (take n (list_of S))"
    using assms(1,2) by (simp add: enumerates_distinct)
  then have "card (set (take n (list_of S))) = length (take n (list_of S))"
    by (rule distinct_card)
  then show ?thesis
    using assms by (simp add: enumerates_length)
qed

lemma capper_finite:
  assumes "finite S" shows "finite (capper list_of S m)"
  using assms by (simp add: capper_def)

lemma capper_card:
  assumes "enumerates list_of" and "finite S" and "0 < m"
  shows "int (card (capper list_of S m)) = min (int (card S)) m"
proof (cases "m < int (card S)")
  case True
  then show ?thesis
    using assms by (simp add: capper_cut card_take)
next
  case False
  then show ?thesis
    by (simp add: capper_pass)
qed

text \<open>
  Claim C4, amended. For a positive maximum the size of the result is the minimum of the
  size of the set and the maximum; a set that is not larger than the maximum is returned
  as it is, and so is every set when the maximum is 0; for a maximum that is not
  negative, a second cap with the same maximum, under any iteration order, changes
  nothing.
\<close>

theorem capper_size:
  assumes "enumerates list_of" and "enumerates list_of'" and "finite S"
  shows "(0 < m \<longrightarrow> int (card (capper list_of S m)) = min (int (card S)) m)
       \<and> (int (card S) \<le> k \<longrightarrow> capper list_of S k = S)
       \<and> capper list_of S 0 = S
       \<and> (0 \<le> m \<longrightarrow> capper list_of' (capper list_of S m) m = capper list_of S m)"
proof -
  have "capper list_of' (capper list_of S m) m = capper list_of S m" if "0 \<le> m"
  proof (cases "m = 0")
    case True
    then show ?thesis by (simp add: capper_zero)
  next
    case False
    with that have "0 < m" by simp
    then have "int (card (capper list_of S m)) \<le> m"
      using assms(1,3) by (simp add: capper_card)
    then show ?thesis by (rule capper_pass)
  qed
  then show ?thesis
    using assms(1,3) by (simp add: capper_card capper_pass capper_zero)
qed

theorem capper_size_witness:
  "int (card (capper sorted_list_of_set {''a'', ''b'', ''c''} 2)) = 2
   \<and> capper sorted_list_of_set {''a'', ''b'', ''c''} 5 = {''a'', ''b'', ''c''}
   \<and> capper reversed_order (capper sorted_list_of_set {''a'', ''b'', ''c''} 2) 2 = {''a'', ''b''}"
proof -
  have f: "finite {''a'', ''b'', ''c''}"
    by simp
  have c: "card {''a'', ''b'', ''c''} = 3"
    by simp
  have v: "capper sorted_list_of_set {''a'', ''b'', ''c''} 2 = {''a'', ''b''}"
    by code_simp
  show ?thesis
    using capper_size[OF enumerates_sorted enumerates_reversed f, of 2 5]
    by (simp add: c v)
qed

text \<open>
  Claim C4, as stated: for every maximum the size of the result is the minimum of the
  size of the set and the maximum. With the maximum 0 the guard switches the cap off,
  and a set of one word keeps its word.
\<close>

theorem capper_zero_counterexample:
  "card (capper sorted_list_of_set {''a''} 0) = 1
   \<and> int (card (capper sorted_list_of_set {''a''} 0)) \<noteq> min (int (card {''a''})) 0"
  by (simp add: capper_def)

text \<open>
  Claim C3, as stated: the subset that is kept depends on the set and the maximum only.
  It is the start of the list in which Python iterates over the set, and two iteration
  orders of the same set of two words keep different words under the maximum 1.
\<close>

theorem capper_order_counterexample:
  "enumerates (sorted_list_of_set :: string set \<Rightarrow> string list) \<and> enumerates reversed_order
   \<and> capper sorted_list_of_set {''a'', ''b''} 1 = {''a''}
   \<and> capper reversed_order {''a'', ''b''} 1 = {''b''}"
proof -
  have "capper sorted_list_of_set {''a'', ''b''} 1 = {''a''}"
    by code_simp
  moreover have "capper reversed_order {''a'', ''b''} 1 = {''b''}"
    by code_simp
  ultimately show ?thesis
    by (simp add: enumerates_sorted enumerates_reversed)
qed

text \<open>
  Claim C3, amended. When the set is larger than a positive maximum, the result is a
  subset of the set with exactly as many elements as the maximum: the first ones in the
  iteration order of the set. It is the same for two iteration orders that list this set
  in the same way.
\<close>

theorem capper_first_elements:
  assumes "enumerates list_of" and "finite S" and "0 < m" and "m < int (card S)"
  shows "capper list_of S m \<subseteq> S
       \<and> card (capper list_of S m) = nat m
       \<and> capper list_of S m = set (take (nat m) (list_of S))
       \<and> (list_of' S = list_of S \<longrightarrow> capper list_of' S m = capper list_of S m)"
proof -
  have "set (take (nat m) (list_of S)) \<subseteq> set (list_of S)"
    by (rule set_take_subset)
  then have "capper list_of S m \<subseteq> S"
    using assms by (simp add: capper_cut enumerates_set)
  moreover have "card (capper list_of S m) = nat m"
    using assms by (simp add: capper_cut card_take)
  ultimately show ?thesis
    using assms(3,4) by (simp add: capper_cut)
qed

theorem capper_first_elements_witness:
  "capper reversed_order {''a'', ''b'', ''c''} 2 \<subseteq> {''a'', ''b'', ''c''}
   \<and> card (capper reversed_order {''a'', ''b'', ''c''} 2) = 2
   \<and> capper reversed_order {''a'', ''b'', ''c''} 2 = {''c'', ''b''}"
proof -
  have f: "finite {''a'', ''b'', ''c''}"
    by simp
  have c: "(2::int) < int (card {''a'', ''b'', ''c''})"
    by simp
  have v: "take 2 (reversed_order {''a'', ''b'', ''c''}) = [''c'', ''b'']"
    by code_simp
  show ?thesis
    using capper_first_elements[OF enumerates_reversed f _ c, of reversed_order]
    by (simp add: v)
qed

section \<open>Year augmentation: size and shape of the result\<close>

lemma add_years_set:
  "add_years ys r results = results \<union> (\<Union>y\<in>set ys. {str_int y @ r, r @ str_int y})"
  unfolding add_years_def by (induction ys arbitrary: results) auto

lemma fold_add_years_set:
  "fold (add_years ys) rs results
     = results \<union> (\<Union>r\<in>set rs. \<Union>y\<in>set ys. {str_int y @ r, r @ str_int y})"
  by (induction rs arbitrary: results) (auto simp add: add_years_set)

lemma year_augment_set:
  assumes "enumerates list_of" and "finite results"
  shows "year_augment list_of results ys
     = results \<union> (\<Union>r\<in>results. \<Union>y\<in>set ys. {str_int y @ r, r @ str_int y})"
  using assms by (simp add: year_augment_def fold_add_years_set enumerates_set)

lemma add_years_finite: "finite results \<Longrightarrow> finite (add_years ys r results)"
  by (simp add: add_years_set)

lemma add_years_card:
  "finite results \<Longrightarrow> card (add_years ys r results) \<le> card results + 2 * length ys"
  unfolding add_years_def
proof (induction ys arbitrary: results)
  case Nil
  then show ?case by simp
next
  case (Cons y ys)
  let ?next = "insert (str_int y @ r) (insert (r @ str_int y) results)"
  have "finite ?next"
    using Cons.prems by simp
  then have "card (fold (\<lambda>y results. insert (str_int y @ r) (insert (r @ str_int y) results)) ys ?next)
      \<le> card ?next + 2 * length ys"
    by (rule Cons.IH)
  moreover have "card ?next \<le> card results + 2"
    using Cons.prems by (simp add: card_insert_if)
  ultimately show ?case
    by simp
qed

lemma fold_add_years_card:
  "finite results \<Longrightarrow>
   card (fold (add_years ys) rs results) \<le> card results + length rs * (2 * length ys)"
proof (induction rs arbitrary: results)
  case Nil
  then show ?case by simp
next
  case (Cons r rs)
  have "card (fold (add_years ys) rs (add_years ys r results))
      \<le> card (add_years ys r results) + length rs * (2 * length ys)"
    using Cons.prems by (intro Cons.IH add_years_finite)
  moreover have "card (add_years ys r results) \<le> card results + 2 * length ys"
    using Cons.prems by (rule add_years_card)
  ultimately show ?case
    by simp
qed

text \<open>
  Claim C5. Year augmentation of a set of \<open>C\<close> candidates with a list of \<open>Y\<close> years
  gives a set of at most \<open>C * (1 + 2Y)\<close> strings, and every string it adds starts or ends
  with the decimal digits of one of the years.
\<close>

theorem year_augment_bound:
  assumes "enumerates list_of" and "finite results"
  shows "card (year_augment list_of results ys) \<le> card results * (1 + 2 * length ys)
       \<and> (\<forall>x \<in> year_augment list_of results ys - results.
            \<exists>y \<in> set ys. prefix (str_int y) x \<or> suffix (str_int y) x)"
proof -
  have "card (year_augment list_of results ys)
      \<le> card results + length (list_of results) * (2 * length ys)"
    unfolding year_augment_def using assms(2) by (rule fold_add_years_card)
  then have "card (year_augment list_of results ys) \<le> card results * (1 + 2 * length ys)"
    using assms by (simp add: enumerates_length)
  moreover have "\<exists>y \<in> set ys. prefix (str_int y) x \<or> suffix (str_int y) x"
    if "x \<in> year_augment list_of results ys - results" for x
  proof -
    from that assms obtain r y where ry: "y \<in> set ys"
      and "x = str_int y @ r \<or> x = r @ str_int y"
      by (auto simp add: year_augment_set)
    then have "prefix (str_int y) x \<or> suffix (str_int y) x"
      by (auto simp add: prefix_def suffix_def)
    with ry show ?thesis
      by blast
  qed
  ultimately show ?thesis
    by blast
qed

theorem year_augment_bound_witness:
  "card (year_augment sorted_list_of_set {''ab''} [2020, 2021]) = 5
   \<and> card {''ab''} * (1 + 2 * length [2020, 2021 :: int]) = 5
   \<and> ''2021ab'' \<in> year_augment sorted_list_of_set {''ab''} [2020, 2021] - {''ab''}
   \<and> str_int 2021 = ''2021''
   \<and> (\<exists>y \<in> set [2020, 2021]. prefix (str_int y) ''2021ab'' \<or> suffix (str_int y) ''2021ab'')"
proof -
  have f: "finite {''ab''}"
    by simp
  have c: "card (year_augment sorted_list_of_set {''ab''} [2020, 2021]) = 5"
    by code_simp
  have m: "''2021ab'' \<in> year_augment sorted_list_of_set {''ab''} [2020, 2021] - {''ab''}"
    by code_simp
  have s: "str_int 2021 = ''2021''"
    by code_simp
  have "\<exists>y \<in> set [2020, 2021]. prefix (str_int y) ''2021ab'' \<or> suffix (str_int y) ''2021ab''"
    using year_augment_bound[OF enumerates_sorted f, of "[2020, 2021]"] m by blast
  then show ?thesis
    using c m s by simp
qed

section \<open>The pool of variants is part of the candidates\<close>

lemma fold_union:
  "fold (\<lambda>w variants. variants \<union> f w) ws A = A \<union> (\<Union>w\<in>set ws. f w)"
  by (induction ws arbitrary: A) auto

lemma variant_pool_set:
  "variant_pool base_words lt = (\<Union>w\<in>set base_words. local_variants lt w)"
  by (simp add: variant_pool_def fold_union)

lemma local_variants_finite: "finite (local_variants lt w)"
  by (simp add: local_variants_def leetspeak_variants_def Let_def)

lemma variant_pool_finite: "finite (variant_pool base_words lt)"
  by (simp add: variant_pool_set local_variants_finite)

lemma local_variants_cases:
  "{w, str_lower w, str_title w, str_upper w} \<subseteq> local_variants lt w"
  by (auto simp add: local_variants_def Let_def)

lemma permutations_one: "permutations xs (Suc 0) = map (\<lambda>i. [xs ! i]) [0..<length xs]"
  by (simp add: comp_def)

lemma singleton_permutation: "v \<in> set xs \<Longrightarrow> [v] \<in> set (permutations xs (Suc 0))"
  by (auto simp add: permutations_one in_set_conv_nth)

lemma combiner_contains_pool:
  assumes "enumerates list_of" and "finite variants" and "v \<in> variants" and "separators \<noteq> []"
  shows "v \<in> combiner list_of variants separators"
proof -
  from assms(4) obtain sep where sep: "sep \<in> set separators"
    by (cases separators) auto
  have "card variants \<noteq> 0"
    using assms(2,3) by auto
  then have len: "Suc 0 \<in> set [1..<min 3 (card variants) + 1]"
    by auto
  have "[v] \<in> set (permutations (list_of variants) (Suc 0))"
  proof (rule singleton_permutation)
    show "v \<in> set (list_of variants)"
      using assms(1-3) by (simp add: enumerates_set)
  qed
  moreover have "join sep [v] = v"
    by simp
  ultimately show ?thesis
    unfolding combiner_def combiner_adds_def joined_def using sep len
    by (fastforce simp del: permutations.simps)
qed

lemma year_augment_superset:
  "enumerates list_of \<Longrightarrow> finite results \<Longrightarrow> results \<subseteq> year_augment list_of results ys"
  by (simp add: year_augment_set)

lemma combiner_finite: "finite (combiner list_of variants separators)"
  by (simp add: combiner_def)

lemma word_variants_superset:
  assumes "enumerates list_of"
  shows "combiner list_of (variant_pool base_words lt)
           (case separators of None \<Rightarrow> default_separators | Some seps \<Rightarrow> seps)
         \<subseteq> word_variants list_of base_words yrs lt ap separators"
  using assms year_augment_superset[OF assms combiner_finite]
  by (auto simp add: word_variants_def Let_def split: option.splits)

text \<open>
  Claim C10. Every base word and its lower-case, title-case and upper-case forms are
  candidates themselves, whatever the other arguments are. The separators are the
  default ones or any list that is not empty: with an empty list of separators, which
  the command never passes, the combiner adds nothing at all.
\<close>

theorem pool_elements_are_candidates:
  assumes "enumerates list_of" and "w \<in> set base_words" and "separators \<noteq> Some []"
  shows "{w, str_lower w, str_title w, str_upper w}
         \<subseteq> word_variants list_of base_words yrs lt ap separators"
proof -
  let ?seps = "case separators of None \<Rightarrow> default_separators | Some seps \<Rightarrow> seps"
  have ne: "?seps \<noteq> []"
    using assms(3) by (cases separators) (simp_all add: default_separators_def)
  have "{w, str_lower w, str_title w, str_upper w} \<subseteq> variant_pool base_words lt"
    using assms(2) local_variants_cases[of w lt] by (auto simp add: variant_pool_set)
  also have "\<dots> \<subseteq> combiner list_of (variant_pool base_words lt) ?seps"
    using combiner_contains_pool[OF assms(1) variant_pool_finite _ ne] by blast
  also have "\<dots> \<subseteq> word_variants list_of base_words yrs lt ap separators"
    using assms(1) by (rule word_variants_superset)
  finally show ?thesis .
qed

theorem pool_elements_are_candidates_witness:
  "{''mAx'', str_lower ''mAx'', str_title ''mAx'', str_upper ''mAx''}
     \<subseteq> word_variants sorted_list_of_set [''mAx''] (Some [2020]) True True None
   \<and> str_lower ''mAx'' = ''max'' \<and> str_title ''mAx'' = ''Max'' \<and> str_upper ''mAx'' = ''MAX''"
proof -
  have "str_lower ''mAx'' = ''max''" and "str_title ''mAx'' = ''Max''" and "str_upper ''mAx'' = ''MAX''"
    by code_simp+
  moreover have "{''mAx'', str_lower ''mAx'', str_title ''mAx'', str_upper ''mAx''}
     \<subseteq> word_variants sorted_list_of_set [''mAx''] (Some [2020]) True True None"
    by (rule pool_elements_are_candidates[OF enumerates_sorted]) simp_all
  ultimately show ?thesis
    by blast
qed

section \<open>The combiner: number of candidates\<close>

lemma remove_nth_length: "i < length xs \<Longrightarrow> length (remove_nth i xs) = length xs - 1"
  by (auto simp add: remove_nth_def)

lemma permutations_step:
  assumes "\<And>ys::'a list. length ys = length xs - 1 \<Longrightarrow> length (permutations ys r) = c"
  shows "length (permutations (xs::'a list) (Suc r)) = length xs * c"
proof -
  have eq: "map (\<lambda>i. length (map (\<lambda>p. xs ! i # p) (permutations (remove_nth i xs) r))) [0..<length xs]
      = map (\<lambda>i. c) [0..<length xs]"
    by (rule map_cong) (simp_all add: assms remove_nth_length)
  have "length (permutations xs (Suc r))
      = sum_list (map (\<lambda>i. length (map (\<lambda>p. xs ! i # p) (permutations (remove_nth i xs) r)))
          [0..<length xs])"
    by (simp add: length_concat comp_def)
  also have "\<dots> = sum_list (map (\<lambda>i. c) [0..<length xs])"
    by (simp only: eq)
  also have "\<dots> = length xs * c"
    by (simp add: sum_list_triv)
  finally show ?thesis .
qed

lemma permutations_length_1: "length (permutations xs (Suc 0)) = length xs"
  using permutations_step[of xs 0 1] by simp

lemma permutations_length_2: "length (permutations xs (Suc (Suc 0))) = length xs * (length xs - 1)"
  by (rule permutations_step) (simp add: permutations_length_1 del: permutations.simps)

lemma permutations_length_3:
  "length (permutations xs (Suc (Suc (Suc 0)))) = length xs * ((length xs - 1) * (length xs - 2))"
  by (rule permutations_step)
    (simp add: permutations_length_2 numeral_2_eq_2 del: permutations.simps)

lemma joined_length:
  "length (joined xs seps l) = length (permutations xs l) * length seps"
  by (simp add: joined_def length_concat comp_def sum_list_triv)

lemma joined_single: "set (joined xs seps (Suc 0)) \<subseteq> set xs"
  by (auto simp add: joined_def)

lemma joined_single_card:
  assumes "distinct xs"
  shows "card (set (joined xs seps (Suc 0))) \<le> length xs"
proof -
  have "card (set (joined xs seps (Suc 0))) \<le> card (set xs)"
    by (intro card_mono joined_single) simp
  then show ?thesis
    using assms by (simp add: distinct_card)
qed

lemma card_append: "card (set (xs @ ys)) \<le> card (set xs) + length ys"
proof -
  have "card (set (xs @ ys)) \<le> card (set xs) + card (set ys)"
    by (simp add: card_Un_le)
  also have "\<dots> \<le> card (set xs) + length ys"
    by (simp add: card_length)
  finally show ?thesis .
qed

lemma lengths_upto:
  "[1..<min 3 k + 1] =
     (if k = 0 then [] else if k = 1 then [Suc 0] else if k = 2 then [Suc 0, Suc (Suc 0)]
      else [Suc 0, Suc (Suc 0), Suc (Suc (Suc 0))])"
proof -
  have a: "[Suc 0..<2] = [Suc 0]"
    by (simp add: upt_rec)
  have b: "[Suc 0..<3] = [Suc 0, Suc (Suc 0)]"
    by (simp add: upt_rec)
  have c: "[Suc 0..<4] = [Suc 0, Suc (Suc 0), Suc (Suc (Suc 0))]"
    by (simp add: upt_rec)
  consider "k = 0" | "k = 1" | "k = 2" | "3 \<le> k"
    by linarith
  then show ?thesis
  proof cases
    case 1
    then show ?thesis by simp
  next
    case 2
    then show ?thesis using a by simp
  next
    case 3
    then show ?thesis using b by simp
  next
    case 4
    then have "min 3 k = 3" by simp
    then show ?thesis using 4 c by simp
  qed
qed

lemma combiner_adds_cases:
  "combiner_adds list_of variants seps =
     (if card variants = 0 then []
      else if card variants = 1 then joined (list_of variants) seps (Suc 0)
      else if card variants = 2
        then joined (list_of variants) seps (Suc 0) @ joined (list_of variants) seps (Suc (Suc 0))
      else joined (list_of variants) seps (Suc 0) @ joined (list_of variants) seps (Suc (Suc 0))
             @ joined (list_of variants) seps (Suc (Suc (Suc 0))))"
  unfolding combiner_adds_def lengths_upto by simp

lemma combiner_adds_length:
  assumes "enumerates list_of" and "finite variants"
    and "k = card variants" and "s = length separators"
  shows "length (combiner_adds list_of variants separators)
     = s * (k + k * (k - 1) + k * (k - 2) * (k - 1))"
proof -
  have l: "length (list_of variants) = k"
    using assms by (simp add: enumerates_length)
  consider "k = 0" | "k = 1" | "k = 2" | "3 \<le> k"
    by linarith
  then show ?thesis
  proof cases
    case 1
    then show ?thesis
      using assms(3) by (simp add: combiner_adds_cases)
  next
    case 2
    then show ?thesis
      using assms(3,4) l
      by (simp add: combiner_adds_cases joined_length permutations_length_1
          del: permutations.simps)
  next
    case 3
    then show ?thesis
      using assms(3,4) l
      by (simp add: combiner_adds_cases joined_length permutations_length_1
          permutations_length_2 add_mult_distrib2 mult_ac del: permutations.simps)
  next
    case 4
    then have "k \<noteq> 0" "k \<noteq> 1" "k \<noteq> 2"
      by simp_all
    then show ?thesis
      using assms(3,4) l
      by (simp add: combiner_adds_cases joined_length permutations_length_1
          permutations_length_2 permutations_length_3 add_mult_distrib2 mult_ac
          del: permutations.simps)
  qed
qed

lemma combiner_card_tight:
  assumes "enumerates list_of" and "finite variants"
    and "k = card variants" and "s = length separators"
  shows "card (combiner list_of variants separators)
     \<le> k + s * (k * (k - 1) + k * (k - 2) * (k - 1))"
proof -
  let ?xs = "list_of variants"
  let ?j1 = "joined ?xs separators (Suc 0)"
  let ?j2 = "joined ?xs separators (Suc (Suc 0))"
  let ?j3 = "joined ?xs separators (Suc (Suc (Suc 0)))"
  have l: "length ?xs = k"
    using assms by (simp add: enumerates_length)
  have "distinct ?xs"
    using assms by (simp add: enumerates_distinct)
  then have j1: "card (set ?j1) \<le> k"
    using joined_single_card[of ?xs separators] l by simp
  have j2: "length ?j2 = s * (k * (k - 1))"
    using assms(4) l by (simp add: joined_length permutations_length_2 del: permutations.simps)
  have j3: "length ?j3 = s * (k * (k - 2) * (k - 1))"
    using assms(4) l
    by (simp add: joined_length permutations_length_3 mult_ac del: permutations.simps)
  consider "k = 0" | "k = 1" | "k = 2" | "3 \<le> k"
    by linarith
  then show ?thesis
  proof cases
    case 1
    then show ?thesis
      using assms(3) by (simp add: combiner_def combiner_adds_cases)
  next
    case 2
    then show ?thesis
      using assms(3) j1 by (simp add: combiner_def combiner_adds_cases del: set_concat)
  next
    case 3
    have "card (set (?j1 @ ?j2)) \<le> card (set ?j1) + length ?j2"
      by (rule card_append)
    then show ?thesis
      using 3 assms(3) j1 j2 by (simp add: combiner_def combiner_adds_cases)
  next
    case 4
    have "card (set (?j1 @ (?j2 @ ?j3))) \<le> card (set ?j1) + length (?j2 @ ?j3)"
      by (rule card_append)
    then have "card (set (?j1 @ (?j2 @ ?j3))) \<le> k + s * (k * (k - 1) + k * (k - 2) * (k - 1))"
      using j1 j2 j3 by (simp add: add_mult_distrib2)
    moreover have "combiner list_of variants separators = set (?j1 @ (?j2 @ ?j3))"
      using 4 assms(3) by (simp add: combiner_def combiner_adds_cases)
    ultimately show ?thesis
      by simp
  qed
qed

text \<open>
  Claim C1, amended. For a pool of \<open>k\<close> variants and \<open>s\<close> separators the combiner forms
  exactly \<open>s * (k + k*(k-1) + k*(k-2)*(k-1))\<close> strings, one for each permutation of one,
  two or three variants and each separator (the terms of the lengths above \<open>k\<close> are 0).
  The candidate set keeps every string once, so it has at most that many elements, and
  at most \<open>k + s * (k*(k-1) + k*(k-2)*(k-1))\<close>, because joining a single variant gives
  the variant itself for every separator.
\<close>

theorem combiner_size:
  assumes "enumerates list_of" and "finite variants"
    and "k = card variants" and "s = length separators"
  shows "length (combiner_adds list_of variants separators)
           = s * (k + k * (k - 1) + k * (k - 2) * (k - 1))
       \<and> card (combiner list_of variants separators)
           \<le> s * (k + k * (k - 1) + k * (k - 2) * (k - 1))
       \<and> card (combiner list_of variants separators)
           \<le> k + s * (k * (k - 1) + k * (k - 2) * (k - 1))"
proof -
  have "card (combiner list_of variants separators)
      \<le> length (combiner_adds list_of variants separators)"
    unfolding combiner_def by (rule card_length)
  then show ?thesis
    using combiner_adds_length[OF assms] combiner_card_tight[OF assms] by simp
qed

theorem combiner_size_witness:
  "length (combiner_adds sorted_list_of_set {''Max'', ''max'', ''MAX''} default_separators) = 75
   \<and> card (combiner sorted_list_of_set {''Max'', ''max'', ''MAX''} default_separators) \<le> 75
   \<and> card (combiner sorted_list_of_set {''Max'', ''max'', ''MAX''} default_separators) \<le> 63"
proof -
  have f: "finite {''Max'', ''max'', ''MAX''}"
    by simp
  have k: "3 = card {''Max'', ''max'', ''MAX''}"
    by simp
  have s: "5 = length default_separators"
    by (simp add: default_separators_def)
  show ?thesis
    using combiner_size[OF enumerates_sorted f k s] by simp
qed

text \<open>
  Claim C1, as stated: the candidate set has exactly \<open>s * (k + k*(k-1) + k*(k-2)*(k-1))\<close>
  elements. The seed \<open>Max\<close> gives a pool of 3 variants, the default separators are 5, and
  the candidate set has 63 elements, not 75.
\<close>

theorem combiner_size_counterexample:
  "variant_pool [''Max''] False = {''Max'', ''max'', ''MAX''}
   \<and> card (variant_pool [''Max''] False) = 3
   \<and> length default_separators = 5
   \<and> card (combiner sorted_list_of_set (variant_pool [''Max''] False) default_separators) = 63
   \<and> card (combiner sorted_list_of_set (variant_pool [''Max''] False) default_separators)
       \<noteq> length default_separators * (3 + 3 * (3 - 1) + 3 * (3 - 2) * (3 - 1))"
proof -
  have p: "variant_pool [''Max''] False = {''Max'', ''max'', ''MAX''}"
    by code_simp
  have c: "card (combiner sorted_list_of_set {''Max'', ''max'', ''MAX''} default_separators) = 63"
    by code_simp
  have l: "length default_separators = 5"
    by (simp add: default_separators_def)
  show ?thesis
    by (simp add: p c l)
qed

section \<open>The file that is written\<close>

lemma write_words_concat:
  "write_words ws f = f @ concat (map (\<lambda>w. w @ [newline]) ws)"
  by (induction ws arbitrary: f) simp_all

lemma sort_enumeration:
  assumes "enumerates list_of" and "finite (wl :: 'a::linorder set)"
  shows "sort (list_of wl) = sorted_list_of_set wl"
proof -
  have "sorted_list_of_set (set (list_of wl)) = sort (remdups (list_of wl))"
    by (rule sorted_list_of_set_sort_remdups)
  then show ?thesis
    using assms by (simp add: enumerates_set enumerates_distinct distinct_remdups_id)
qed

lemma emit_sorted:
  assumes "enumerates list_of" and "finite wl"
  shows "emit list_of wl = concat (map (\<lambda>w. w @ [newline]) (sorted_list_of_set wl))"
  using assms by (simp add: emit_def write_words_concat sort_enumeration)

lemma split_on_line:
  "c \<notin> set w \<Longrightarrow> split_on c (w @ c # rest) = w # split_on c rest"
  by (induction w) auto

lemma split_on_lines:
  "\<forall>w\<in>set ws. c \<notin> set w \<Longrightarrow> split_on c (concat (map (\<lambda>w. w @ [c]) ws)) = ws @ [[]]"
  by (induction ws) (simp_all add: split_on_line)

text \<open>
  The word list of the command is finite, and the file that the command writes is the
  one that \<open>emit\<close> builds from it.
\<close>

lemma year_augment_finite: "finite results \<Longrightarrow> finite (year_augment list_of results ys)"
  by (simp add: year_augment_def fold_add_years_set)

lemma word_variants_finite: "finite (word_variants list_of base_words yrs lt ap separators)"
  by (simp add: word_variants_def Let_def combiner_finite year_augment_finite split: option.splits)

lemma wordlist_finite: "finite (wordlist list_of lim a)"
  unfolding wordlist_def by (intro capper_finite word_variants_finite)

lemma generate_outcome:
  assumes "seeds a \<noteq> []"
  shows "generate_wordlist list_of lim a =
     \<lparr>stdout = snd (year_list lim a)
                 @ [GeneratingVariants (seeds a),
                    Generated (card (wordlist list_of lim a)) (out_path a)],
      written = Some (out_path a, emit list_of (wordlist list_of lim a))\<rparr>"
proof -
  obtain ys warning where y: "year_list lim a = (ys, warning)"
    by (cases "year_list lim a")
  show ?thesis
    using assms by (simp add: generate_wordlist_def wordlist_def y Let_def)
qed

text \<open>
  No step of the command makes a newline: when no seed contains one, no word of the word
  list does.
\<close>

lemma char_lower_newline: "c \<noteq> newline \<Longrightarrow> char_lower c \<noteq> newline"
proof
  assume c: "c \<noteq> newline" and e: "char_lower c = newline"
  show False
  proof (cases "is_upper c")
    case True
    then have "65 \<le> (of_char c :: nat)" and "(of_char c :: nat) \<le> 90"
      by (simp_all add: is_upper_def less_eq_char_def)
    moreover have "(of_char (char_lower c) :: nat) = (of_char c + 32) mod 256"
      using True by (simp add: char_lower_def)
    moreover have "(of_char newline :: nat) = 10"
      by (simp add: newline_def)
    ultimately show False
      using e by simp
  next
    case False
    then show False
      using c e by (simp add: char_lower_def)
  qed
qed

lemma char_upper_newline: "c \<noteq> newline \<Longrightarrow> char_upper c \<noteq> newline"
proof
  assume c: "c \<noteq> newline" and e: "char_upper c = newline"
  show False
  proof (cases "is_lower c")
    case True
    then have "97 \<le> (of_char c :: nat)" and "(of_char c :: nat) \<le> 122"
      by (simp_all add: is_lower_def less_eq_char_def)
    moreover have "(of_char (char_upper c) :: nat) = (of_char c - 32) mod 256"
      using True by (simp add: char_upper_def)
    moreover have "(of_char newline :: nat) = 10"
      by (simp add: newline_def)
    ultimately show False
      using e by simp
  next
    case False
    then show False
      using c e by (simp add: char_upper_def)
  qed
qed

lemma title_from_newline: "newline \<notin> set w \<Longrightarrow> newline \<notin> set (title_from b w)"
proof (induction w arbitrary: b)
  case Nil
  then show ?case by simp
next
  case (Cons c w)
  then have "c \<noteq> newline" and "newline \<notin> set (title_from (is_cased c) w)"
    by auto
  moreover have "char_lower c \<noteq> newline" and "char_upper c \<noteq> newline"
    using \<open>c \<noteq> newline\<close> by (simp_all add: char_lower_newline char_upper_newline)
  ultimately show ?case
    by (cases b) auto
qed

lemma map_newline:
  assumes "\<And>c. c \<noteq> newline \<Longrightarrow> f c \<noteq> newline" and "newline \<notin> set w"
  shows "newline \<notin> set (map f w)"
proof
  assume "newline \<in> set (map f w)"
  then obtain c where c: "c \<in> set w" and f: "f c = newline"
    by auto
  from c assms(2) have "c \<noteq> newline"
    by auto
  from assms(1)[OF this] f show False
    by simp
qed

lemma case_forms_newline:
  assumes "newline \<notin> set w"
  shows "newline \<notin> set (str_lower w)" and "newline \<notin> set (str_upper w)"
    and "newline \<notin> set (str_title w)"
proof -
  show "newline \<notin> set (str_lower w)"
    unfolding str_lower_def using char_lower_newline assms by (rule map_newline)
  show "newline \<notin> set (str_upper w)"
    unfolding str_upper_def using char_upper_newline assms by (rule map_newline)
  show "newline \<notin> set (str_title w)"
    unfolding str_title_def using assms by (rule title_from_newline)
qed

lemma leet_choices_newline:
  "c \<noteq> newline \<Longrightarrow> ch \<in> set (leet_choices c) \<Longrightarrow> newline \<notin> set ch"
  by (auto simp add: leet_choices_cases newline_def split: if_splits)

lemma leet_loop_newline:
  "newline \<notin> set word \<Longrightarrow> \<forall>v\<in>set vs. newline \<notin> set v \<Longrightarrow>
   \<forall>v\<in>set (leet_loop word vs). newline \<notin> set v"
proof (induction word arbitrary: vs)
  case Nil
  then show ?case by simp
next
  case (Cons c word)
  have "\<forall>v\<in>set (concat (map (\<lambda>p. map (\<lambda>ch. p @ ch) (leet_choices c)) vs)). newline \<notin> set v"
    using Cons.prems leet_choices_newline[of c] by auto
  with Cons.IH[of "concat (map (\<lambda>p. map (\<lambda>ch. p @ ch) (leet_choices c)) vs)"] Cons.prems(1)
  show ?case
    by simp
qed

lemma leetspeak_newline:
  "newline \<notin> set word \<Longrightarrow> v \<in> leetspeak_variants word \<Longrightarrow> newline \<notin> set v"
  using leet_loop_newline[of word "[[]]"] by (auto simp add: leetspeak_variants_def)

lemma local_variants_newline:
  assumes "newline \<notin> set w" and "v \<in> local_variants lt w"
  shows "newline \<notin> set v"
proof -
  have "\<forall>u\<in>{w, str_lower w, str_title w, str_upper w}. newline \<notin> set u"
    using assms(1) by (simp add: case_forms_newline)
  then show ?thesis
    using assms(2) leetspeak_newline
    by (auto simp add: local_variants_def Let_def split: if_splits)
qed

lemma variant_pool_newline:
  assumes "\<forall>w\<in>set base_words. newline \<notin> set w" and "v \<in> variant_pool base_words lt"
  shows "newline \<notin> set v"
  using assms local_variants_newline by (auto simp add: variant_pool_set)

lemma remove_nth_subset: "set (remove_nth i xs) \<subseteq> set xs"
  using set_take_subset[of i xs] set_drop_subset[of "Suc i" xs]
  by (auto simp add: remove_nth_def)

lemma permutations_elements:
  "p \<in> set (permutations xs r) \<Longrightarrow> set p \<subseteq> set xs"
proof (induction r arbitrary: xs p)
  case 0
  then show ?case by simp
next
  case (Suc r)
  from Suc.prems obtain i q where i: "i < length xs"
    and q: "q \<in> set (permutations (remove_nth i xs) r)" and p: "p = xs ! i # q"
    by auto
  have "set q \<subseteq> set xs"
    using Suc.IH[OF q] remove_nth_subset[of i xs] by blast
  then show ?case
    using i p by simp
qed

lemma join_newline:
  "newline \<notin> set sep \<Longrightarrow> \<forall>x\<in>set combo. newline \<notin> set x \<Longrightarrow> newline \<notin> set (join sep combo)"
  by (induction sep combo rule: join.induct) simp_all

lemma combiner_newline:
  assumes "enumerates list_of" and "finite variants"
    and "\<forall>v\<in>variants. newline \<notin> set v" and "\<forall>sep\<in>set separators. newline \<notin> set sep"
    and "x \<in> combiner list_of variants separators"
  shows "newline \<notin> set x"
proof -
  from assms(5) obtain l combo sep where c: "combo \<in> set (permutations (list_of variants) l)"
    and s: "sep \<in> set separators" and x: "x = join sep combo"
    unfolding combiner_def combiner_adds_def joined_def by auto
  have "set combo \<subseteq> variants"
    using permutations_elements[OF c] assms(1,2) by (simp add: enumerates_set)
  then show ?thesis
    unfolding x using assms(3,4) s by (intro join_newline) auto
qed

lemma digit_char_newline: "d < 10 \<Longrightarrow> digit_char d \<noteq> newline"
proof
  assume d: "d < 10" and e: "digit_char d = newline"
  have "(of_char (digit_char d) :: nat) = (48 + d) mod 256"
    by (simp add: digit_char_def)
  moreover have "(of_char newline :: nat) = 10"
    by (simp add: newline_def)
  ultimately show False
    using d e by simp
qed

lemma str_nat_newline: "newline \<notin> set (str_nat n)"
proof (induction n rule: str_nat.induct)
  case (1 n)
  show ?case
  proof (cases "n < 10")
    case True
    then show ?thesis
      using digit_char_newline[of n] by (subst str_nat.simps) auto
  next
    case False
    have "n mod 10 < 10"
      by simp
    then have "digit_char (n mod 10) \<noteq> newline"
      by (rule digit_char_newline)
    with False 1 show ?thesis
      by (subst str_nat.simps) auto
  qed
qed

lemma str_int_newline: "newline \<notin> set (str_int y)"
proof -
  have "CHR ''-'' \<noteq> newline"
    by (simp add: newline_def)
  then show ?thesis
    by (simp add: str_int_def str_nat_newline)
qed

lemma year_augment_newline:
  assumes "enumerates list_of" and "finite results"
    and "\<forall>r\<in>results. newline \<notin> set r" and "x \<in> year_augment list_of results ys"
  shows "newline \<notin> set x"
  using assms str_int_newline by (auto simp add: year_augment_set)

lemma default_separators_newline: "\<forall>sep\<in>set default_separators. newline \<notin> set sep"
  by (simp add: default_separators_def newline_def)

lemma word_variants_newline:
  assumes "enumerates list_of" and "\<forall>w\<in>set base_words. newline \<notin> set w"
    and "x \<in> word_variants list_of base_words yrs lt ap None"
  shows "newline \<notin> set x"
proof -
  let ?results = "combiner list_of (variant_pool base_words lt) default_separators"
  have r: "\<forall>r\<in>?results. newline \<notin> set r"
    using combiner_newline[OF assms(1) variant_pool_finite _ default_separators_newline]
      variant_pool_newline[OF assms(2)] by blast
  show ?thesis
  proof (cases "\<exists>ys. yrs = Some ys \<and> ap \<and> ys \<noteq> []")
    case True
    then obtain ys where "yrs = Some ys" and "ap" and "ys \<noteq> []"
      by blast
    then have "x \<in> year_augment list_of ?results ys"
      using assms(3) by (simp add: word_variants_def Let_def)
    then show ?thesis
      using year_augment_newline[OF assms(1) combiner_finite r] by blast
  next
    case False
    then have "x \<in> ?results"
      using assms(3) by (auto simp add: word_variants_def Let_def split: option.splits if_splits)
    then show ?thesis
      using r by blast
  qed
qed

lemma slice_to_subset: "set (slice_to xs n) \<subseteq> set xs"
  by (auto simp add: slice_to_def dest: in_set_takeD)

lemma capper_subset:
  assumes "enumerates list_of" and "finite S"
  shows "capper list_of S m \<subseteq> S"
  using assms slice_to_subset[of "list_of S" m] by (auto simp add: capper_def enumerates_set)

lemma wordlist_newline:
  assumes "enumerates list_of" and "\<forall>w\<in>set (seeds a). newline \<notin> set w"
    and "x \<in> wordlist list_of lim a"
  shows "newline \<notin> set x"
proof -
  have "x \<in> word_variants list_of (seeds a)
      (if append_years a then Some (fst (year_list lim a)) else None) (leet a) (append_years a) None"
    using assms(3) capper_subset[OF assms(1) word_variants_finite] unfolding wordlist_def
    by blast
  then show ?thesis
    using assms(1,2) by (rule word_variants_newline[rotated 2])
qed

text \<open>
  Claim C7, as stated: the file has one candidate on each line, in ascending order. A
  seed is taken as it is given, and one with a newline in it makes every candidate span
  several lines: the 12 candidates of the seed \<open>x\<close>, newline, \<open>y\<close> fill 34 lines, which
  are neither candidates nor in ascending order.
\<close>

theorem newline_seed_counterexample:
  "card (wordlist sorted_list_of_set example_platform
          (default_args\<lparr>name := Some ''x\<newline>y''\<rparr>)) = 12
   \<and> written (generate_wordlist sorted_list_of_set example_platform
          (default_args\<lparr>name := Some ''x\<newline>y''\<rparr>))
       = Some (''wordlist.txt'', emit sorted_list_of_set
          (wordlist sorted_list_of_set example_platform
            (default_args\<lparr>name := Some ''x\<newline>y''\<rparr>)))
   \<and> length (split_on newline (emit sorted_list_of_set
          (wordlist sorted_list_of_set example_platform
            (default_args\<lparr>name := Some ''x\<newline>y''\<rparr>)))) = 35
   \<and> take 5 (split_on newline (emit sorted_list_of_set
          (wordlist sorted_list_of_set example_platform
            (default_args\<lparr>name := Some ''x\<newline>y''\<rparr>))))
       = [''X'', ''Y'', ''X'', ''Y-x'', ''y'']"
proof -
  let ?a = "default_args\<lparr>name := Some ''x\<newline>y''\<rparr>"
  let ?wl = "capper sorted_list_of_set
      (combiner sorted_list_of_set (variant_pool [''x\<newline>y''] False) default_separators) 5000"
  have s: "seeds ?a = [''x\<newline>y'']"
    by (simp add: seeds_def default_args_def)
  have w: "wordlist sorted_list_of_set example_platform ?a = ?wl"
    by (simp add: wordlist_def seeds_def default_args_def word_variants_def)
  have c: "card ?wl = 12"
    by code_simp
  have l: "length (split_on newline (emit sorted_list_of_set ?wl)) = 35"
    by code_simp
  have t: "take 5 (split_on newline (emit sorted_list_of_set ?wl))
      = [''X'', ''Y'', ''X'', ''Y-x'', ''y'']"
    by code_simp
  have n: "seeds ?a \<noteq> []"
    by (simp add: s)
  have p: "out_path ?a = ''wordlist.txt''"
    by (simp add: out_path_def default_args_def)
  show ?thesis
    unfolding generate_outcome[OF n] w by (simp add: c l t p)
qed

text \<open>
  Claim C7, amended. When at least one seed is given, the file that the command writes
  consists of the words of its word list in strictly ascending order, each one followed
  by a newline and by nothing else. When no seed contains a newline, no word contains
  one; and when no word contains a newline, the lines of the file are exactly these
  words, and nothing follows the last newline.
\<close>

theorem emitted_file_format:
  assumes "enumerates list_of" and "seeds a \<noteq> []"
    and "ws = sorted_list_of_set (wordlist list_of lim a)"
  shows "written (generate_wordlist list_of lim a)
           = Some (out_path a, concat (map (\<lambda>w. w @ [newline]) ws))
       \<and> sorted ws \<and> distinct ws \<and> set ws = wordlist list_of lim a
       \<and> ((\<forall>v\<in>set (seeds a). newline \<notin> set v) \<longrightarrow> (\<forall>w\<in>set ws. newline \<notin> set w))
       \<and> ((\<forall>w\<in>set ws. newline \<notin> set w) \<longrightarrow>
            split_on newline (concat (map (\<lambda>w. w @ [newline]) ws)) = ws @ [[]])"
proof -
  have "written (generate_wordlist list_of lim a)
      = Some (out_path a, concat (map (\<lambda>w. w @ [newline]) ws))"
    using assms by (simp add: generate_outcome emit_sorted wordlist_finite)
  moreover have "sorted ws \<and> distinct ws \<and> set ws = wordlist list_of lim a"
    using assms(3) by (simp add: wordlist_finite)
  moreover have "\<forall>w\<in>set ws. newline \<notin> set w"
    if "\<forall>v\<in>set (seeds a). newline \<notin> set v"
    using wordlist_newline[OF assms(1) that] assms(3) by (simp add: wordlist_finite)
  moreover have "split_on newline (concat (map (\<lambda>w. w @ [newline]) ws)) = ws @ [[]]"
    if "\<forall>w\<in>set ws. newline \<notin> set w"
    using that by (rule split_on_lines)
  ultimately show ?thesis
    by blast
qed

theorem emitted_file_format_witness:
  "written (generate_wordlist reversed_order example_platform
      (default_args\<lparr>name := Some ''b'', max_size := 3\<rparr>))
     = Some (''wordlist.txt'', ''b@B\<newline>bB\<newline>b_B\<newline>'')
   \<and> split_on newline ''b@B\<newline>bB\<newline>b_B\<newline>'' = [''b@B'', ''bB'', ''b_B'', []]"
proof -
  let ?a = "default_args\<lparr>name := Some ''b'', max_size := 3\<rparr>"
  let ?wl = "capper reversed_order
      (combiner reversed_order (variant_pool [''b''] False) default_separators) 3"
  have s: "seeds ?a = [''b'']"
    by (simp add: seeds_def default_args_def)
  have n: "seeds ?a \<noteq> []"
    by (simp add: s)
  have w: "wordlist reversed_order example_platform ?a = ?wl"
    by (simp add: wordlist_def seeds_def default_args_def word_variants_def)
  have v: "sorted_list_of_set ?wl = [''b@B'', ''bB'', ''b_B'']"
    by code_simp
  have p: "out_path ?a = ''wordlist.txt''"
    by (simp add: out_path_def default_args_def)
  have f: "\<forall>w\<in>set [''b@B'', ''bB'', ''b_B'']. newline \<notin> set w"
    by (simp add: newline_def)
  have g: "\<forall>v\<in>set (seeds ?a). newline \<notin> set v"
    by (simp add: s newline_def)
  show ?thesis
    using emitted_file_format[OF enumerates_reversed n, of "[''b@B'', ''bB'', ''b_B'']"
        example_platform] f g
    by (simp add: w v p newline_def)
qed

end
